theory Spec2Isabelle
  imports Complex_Main "HOL-Library.AList"
begin

section \<open>Result cache: \<open>AdvancedCache\<close> of server.py\<close>

text \<open>
  The class keeps a dict \<open>cache\<close> from keys to pairs (value, timestamp), a deque
  \<open>access_times\<close> of pairs (key, timestamp) appended by every \<open>set\<close>, and the two
  configuration values \<open>max_size\<close> and \<open>ttl\<close>. The dict is an association list
  (Python dicts keep insertion order, and \<open>len\<close> is its length as long as the keys
  are distinct); the deque is a list whose head is the left end. Clock readings
  (\<open>time.time()\<close>) are arguments; times are rationals, so the float comparisons of the
  source are read in exact arithmetic. The product \<open>max_size * 0.8\<close> is the rational
  \<open>max_size * 4/5\<close>: the double nearest to 0.8 lies above 4/5, so the rounded product
  is never below an integer that the exact product reaches, and the comparison with
  the integer \<open>len(self.cache)\<close> has the same outcome.
\<close>

record ('k, 'v) AdvancedCache =
  cache :: "('k \<times> ('v \<times> rat)) list"
  access_times :: "('k \<times> rat) list"
  max_size :: int
  ttl :: rat

definition AdvancedCache_init :: "int \<Rightarrow> rat \<Rightarrow> ('k, 'v) AdvancedCache" where
  "AdvancedCache_init m t = \<lparr>cache = [], access_times = [], max_size = m, ttl = t\<rparr>"

text \<open>\<open>get\<close>: the value when the entry is younger than \<open>ttl\<close>; otherwise the entry is
  deleted and the result is \<open>None\<close>. The clock reading is \<open>now\<close>.\<close>

definition AdvancedCache_get ::
  "('k, 'v) AdvancedCache \<Rightarrow> rat \<Rightarrow> 'k \<Rightarrow> 'v option \<times> ('k, 'v) AdvancedCache" where
  "AdvancedCache_get c now key =
     (case map_of (cache c) key of
        Some (data, timestamp) \<Rightarrow>
          if now - timestamp < ttl c then (Some data, c)
          else (None, c\<lparr>cache := AList.delete key (cache c)\<rparr>)
      | None \<Rightarrow> (None, c))"

text \<open>The \<open>while\<close> loop of \<open>_cleanup\<close>. With an empty deque and a dict above the
  watermark the source spins for ever; here that is the value \<open>None\<close>.\<close>

partial_function (option) evict_loop ::
  "('k, 'v) AdvancedCache \<Rightarrow> ('k, 'v) AdvancedCache option" where
  "evict_loop c =
     (if of_nat (length (cache c)) > of_int (max_size c) * (4 / 5 :: rat) then
        (case access_times c of
           [] \<Rightarrow> evict_loop c
         | (old_key, t) # rest \<Rightarrow>
             evict_loop (c\<lparr>access_times := rest,
                           cache := (if old_key \<in> fst ` set (cache c)
                                     then AList.delete old_key (cache c)
                                     else cache c)\<rparr>))
      else Some c)"

definition expired_keys :: "('k, 'v) AdvancedCache \<Rightarrow> rat \<Rightarrow> 'k list" where
  "expired_keys c current_time =
     map fst (filter (\<lambda>(k, v, t). current_time - t > ttl c) (cache c))"

definition AdvancedCache_cleanup ::
  "('k, 'v) AdvancedCache \<Rightarrow> rat \<Rightarrow> ('k, 'v) AdvancedCache option" where
  "AdvancedCache_cleanup c current_time =
     evict_loop (c\<lparr>cache := fold AList.delete (expired_keys c current_time) (cache c)\<rparr>)"

text \<open>\<open>set\<close> reads the clock once (\<open>current_time\<close>); the cleanup pass it may call
  reads it again (\<open>cleanup_time\<close>).\<close>

definition AdvancedCache_set ::
  "('k, 'v) AdvancedCache \<Rightarrow> 'k \<Rightarrow> 'v \<Rightarrow> rat \<Rightarrow> rat \<Rightarrow> ('k, 'v) AdvancedCache option" where
  "AdvancedCache_set c key val current_time cleanup_time =
     (let c1 = c\<lparr>cache := AList.update key (val, current_time) (cache c),
                  access_times := access_times c @ [(key, current_time)]\<rparr>
      in if int (length (cache c1)) > max_size c1
         then AdvancedCache_cleanup c1 cleanup_time
         else Some c1)"

text \<open>The dict has distinct keys, and every key of the dict has an entry in the deque.\<close>

definition dict_ok :: "('k, 'v) AdvancedCache \<Rightarrow> bool" where
  "dict_ok c = distinct (map fst (cache c))"

definition queue_covers :: "('k, 'v) AdvancedCache \<Rightarrow> bool" where
  "queue_covers c = (fst ` set (cache c) \<subseteq> fst ` set (access_times c))"

declare evict_loop.simps [code]

section \<open>Chunk store: \<open>upload_file_chunk\<close> of server.py\<close>

text \<open>
  The handler works on two places under \<open>TEMP_DIR\<close>: the staging directory
  \<open>TEMP_DIR/chunks/<file_id>\<close> of each upload, and the assembled files
  \<open>TEMP_DIR/<filename>\<close>. A directory is an association list from file names to
  contents, absent from \<open>chunk_dirs\<close> when it does not exist; contents are byte strings.
  The model takes the assembled file to lie outside the staging directories (a
  \<open>filename\<close> that points into \<open>chunks/\<close> is not modelled), and the file system
  calls to succeed, except for reading a chunk file that does not exist.
\<close>

type_synonym bytes = string

record temp_dir =
  chunk_dirs :: "(string \<times> (string \<times> bytes) list) list"
  files :: "(string \<times> bytes) list"

text \<open>The chunk file name \<open>f"chunk_{chunk_index:04d}"\<close>: decimal digits, padded with
  zeros to four characters, the sign of a negative index counted in the four.\<close>

definition digit_char :: "nat \<Rightarrow> char" where
  "digit_char d = ''0123456789'' ! d"

fun digits :: "nat \<Rightarrow> string" where
  "digits n = (if n < 10 then [digit_char n] else digits (n div 10) @ [digit_char (n mod 10)])"

declare digits.simps [simp del]

definition zfill :: "nat \<Rightarrow> string \<Rightarrow> string" where
  "zfill w s = replicate (w - length s) (CHR ''0'') @ s"

definition format_04d :: "int \<Rightarrow> string" where
  "format_04d i =
     (if i < 0 then CHR ''-'' # zfill 3 (digits (nat (- i))) else zfill 4 (digits (nat i)))"

definition chunk_name :: "int \<Rightarrow> string" where
  "chunk_name i = ''chunk_'' @ format_04d i"

text \<open>\<open>chunk_dir.glob("chunk_*")\<close>: the entries whose name starts with \<open>chunk_\<close>.\<close>

definition glob_chunks :: "(string \<times> bytes) list \<Rightarrow> (string \<times> bytes) list" where
  "glob_chunks d = filter (\<lambda>(name, data). take 6 name = ''chunk_'') d"

text \<open>Exceptions are values. An \<open>HTTPException\<close> carries its status code and its
  detail: \<open>f"Chunk upload error: {str(e)}"\<close> keeps the exception \<open>e\<close>.\<close>

datatype py_exception =
    FileNotFoundError string | ZeroDivisionError | KeyError | JSONDecodeError
  | OtherException string

datatype http_detail = Chunk_upload_error py_exception | Processing_ID_not_found

datatype http_exception = HTTPException nat http_detail

text \<open>The two response bodies: \<open>complete\<close> with \<open>file_path\<close> (the file name under
  \<open>TEMP_DIR\<close>) and \<open>ready_for_processing\<close>; \<open>chunk_received\<close> with \<open>chunk_index\<close>,
  \<open>total_chunks\<close>, \<open>uploaded_chunks\<close> and \<open>progress\<close>.\<close>

datatype chunk_response =
    Complete string bool
  | ChunkReceived int int nat rat

text \<open>The reassembly loop: the bytes written to the final file so far, and the
  exception of the first chunk file that cannot be opened.\<close>

fun reassemble ::
  "(string \<times> bytes) list \<Rightarrow> int list \<Rightarrow> bytes \<Rightarrow> bytes \<times> py_exception option" where
  "reassemble chunk_dir [] written = (written, None)"
| "reassemble chunk_dir (i # rest) written =
     (case map_of chunk_dir (chunk_name i) of
        None \<Rightarrow> (written, Some (FileNotFoundError (chunk_name i)))
      | Some chunk_data \<Rightarrow> reassemble chunk_dir rest (written @ chunk_data))"

text \<open>The listing of the staging directory of \<open>file_id\<close> after
  \<open>chunk_dir.mkdir(parents=True, exist_ok=True)\<close>: empty when the directory did not
  exist.\<close>

definition staging_dir :: "temp_dir \<Rightarrow> string \<Rightarrow> (string \<times> bytes) list" where
  "staging_dir fs file_id = (case map_of (chunk_dirs fs) file_id of None \<Rightarrow> [] | Some d \<Rightarrow> d)"

definition upload_file_chunk ::
  "temp_dir \<Rightarrow> bytes \<Rightarrow> int \<Rightarrow> int \<Rightarrow> string \<Rightarrow> string
     \<Rightarrow> (http_exception + chunk_response) \<times> temp_dir" where
  "upload_file_chunk fs content chunk_index total_chunks file_id filename =
     (let chunk_dir = staging_dir fs file_id;
          chunk_dir1 = AList.update (chunk_name chunk_index) content chunk_dir;
          fs1 = fs\<lparr>chunk_dirs := AList.update file_id chunk_dir1 (chunk_dirs fs)\<rparr>;
          uploaded_chunks = length (glob_chunks chunk_dir1)
      in if int uploaded_chunks = total_chunks then
           (case reassemble chunk_dir1 (map int [0..<nat total_chunks]) [] of
              (written, Some e) \<Rightarrow>
                (Inl (HTTPException 500 (Chunk_upload_error e)),
                 fs1\<lparr>files := AList.update filename written (files fs1)\<rparr>)
            | (written, None) \<Rightarrow>
                (Inr (Complete filename True),
                 fs1\<lparr>files := AList.update filename written (files fs1),
                     chunk_dirs := AList.delete file_id (chunk_dirs fs1)\<rparr>))
         else if total_chunks = 0
         then (Inl (HTTPException 500 (Chunk_upload_error ZeroDivisionError)), fs1)
         else (Inr (ChunkReceived chunk_index total_chunks uploaded_chunks
                      (of_nat uploaded_chunks / of_int total_chunks * 100)), fs1))"

text \<open>A client's calls for one upload, one after the other: each call carries a chunk
  index and the chunk's bytes; the responses are collected in order.\<close>

fun upload_sequence ::
  "temp_dir \<Rightarrow> (nat \<times> bytes) list \<Rightarrow> nat \<Rightarrow> string \<Rightarrow> string
     \<Rightarrow> (http_exception + chunk_response) list \<times> temp_dir" where
  "upload_sequence fs [] total_chunks file_id filename = ([], fs)"
| "upload_sequence fs ((i, content) # rest) total_chunks file_id filename =
     (let (r, fs1) = upload_file_chunk fs content (int i) (int total_chunks) file_id filename;
          (rs, fs2) = upload_sequence fs1 rest total_chunks file_id filename
      in (r # rs, fs2))"

text \<open>The staging directory of \<open>file_id\<close> lists exactly the chunks of \<open>al\<close>, an
  association list from chunk indices to contents, each under its chunk file name.\<close>

definition chunk_files :: "(nat \<times> bytes) list \<Rightarrow> (string \<times> bytes) list" where
  "chunk_files al = map (\<lambda>(i, content). (chunk_name (int i), content)) al"

definition staging_holds :: "temp_dir \<Rightarrow> string \<Rightarrow> (nat \<times> bytes) list \<Rightarrow> bool" where
  "staging_holds fs file_id al =
     (staging_dir fs file_id = chunk_files al \<and> distinct (map fst al))"

text \<open>The chunks staged after a sequence of uploads: a later upload of an index
  replaces the earlier content.\<close>

fun staged_after :: "(nat \<times> bytes) list \<Rightarrow> (nat \<times> bytes) list \<Rightarrow> (nat \<times> bytes) list" where
  "staged_after [] al = al"
| "staged_after ((i, content) # us) al = staged_after us (AList.update i content al)"

text \<open>Reading a decimal numeral back, used to show that chunk file names of
  different indices differ.\<close>

definition digit_val :: "char \<Rightarrow> nat" where
  "digit_val c = of_char c - 48"

definition dec_val :: "string \<Rightarrow> nat" where
  "dec_val s = foldl (\<lambda>a c. 10 * a + digit_val c) 0 s"

section \<open>Status store and the status stream\<close>

text \<open>
  \<open>LargeFileProcessor.processing_status\<close> is a dict from processing ids to status
  dicts with the keys \<open>status\<close>, \<open>progress\<close>, \<open>message\<close> and, for the records
  created by \<open>process_large_file\<close>, \<open>start_time\<close>. The status is the string the
  source writes; the message keeps the arguments of its format string.
\<close>

datatype message =
    Uploading_file
  | Processing_file
  | Error_message py_exception
  | Processing_cancelled_by_user
  | Analyzing_rows_and_columns nat nat
  | Generating_insights
  | Processing_complete
  | Processed_JSON_objects nat

record processing_record =
  status :: string
  progress :: rat
  message :: message
  start_time :: "rat option"

type_synonym status_store = "string \<Rightarrow> processing_record option"

subsection \<open>\<open>stream_processing_progress\<close>\<close>

text \<open>
  The generator \<open>generate_updates\<close> polls the store once per second for ever. Its
  input here is the list of polls made so far: what
  \<open>processing_status.get(processing_id)\<close> returned at that poll, and the clock reading
  of the timeout test of the same round. Its output is the events sent and whether the
  generator has returned (\<open>Finished\<close>) or is asleep before the next poll
  (\<open>Polling\<close>). An event is the JSON of the status dict, or the timeout message.
\<close>

datatype sse_event = Data processing_record | Timeout_event

datatype stream_state = Finished | Polling

fun generate_updates ::
  "rat \<Rightarrow> rat \<Rightarrow> (processing_record option \<times> rat) list \<Rightarrow> sse_event list \<times> stream_state" where
  "generate_updates last_progress start [] = ([], Polling)"
| "generate_updates last_progress start ((None, now) # polls) = ([], Finished)"
| "generate_updates last_progress start ((Some st, now) # polls) =
     (let sent = (if progress st \<noteq> last_progress then [Data st] else []);
          last_progress1 = (if progress st \<noteq> last_progress then progress st else last_progress)
      in if status st \<in> set [''complete'', ''error''] then (sent, Finished)
         else if now - start > 600 then (sent @ [Timeout_event], Finished)
         else (let (evs, fin) = generate_updates last_progress1 start polls
               in (sent @ evs, fin)))"

definition stream_processing_progress ::
  "status_store \<Rightarrow> string \<Rightarrow> rat \<Rightarrow> (processing_record option \<times> rat) list
     \<Rightarrow> http_exception + sse_event list \<times> stream_state" where
  "stream_processing_progress processing_status processing_id start polls =
     (if processing_status processing_id = None
      then Inl (HTTPException 404 Processing_ID_not_found)
      else Inr (generate_updates (- 1) start polls))"



subsection \<open>\<open>cancel_processing\<close> and the writes of \<open>process_large_file\<close>\<close>










section \<open>JSON-Lines streaming: \<open>_stream_large_json\<close>\<close>

text \<open>
  The file is the list of its lines. \<open>json.loads\<close> is a parameter: it returns the
  parsed object or raises, \<open>JSONDecodeError\<close> for a malformed line. \<open>str.strip\<close>
  removes the ASCII whitespace at both ends. The loop carries \<open>line_count\<close>,
  \<open>parsed_objects\<close> and the status record of the run; \<open>None\<close> for the record is a
  missing key, and \<open>update\<close> on it raises \<open>KeyError\<close>. The result of the loop is
  the events sent, then either the exception that leaves the loop or the two counters.
\<close>

definition is_space :: "char \<Rightarrow> bool" where
  "is_space c = (c \<in> set [CHR '' '', CHR 0x09, CHR 0x0A, CHR 0x0B, CHR 0x0C, CHR 0x0D,
                           CHR 0x1C, CHR 0x1D, CHR 0x1E, CHR 0x1F])"

definition strip :: "string \<Rightarrow> string" where
  "strip s = rev (dropWhile is_space (rev (dropWhile is_space s)))"

datatype json_event =
    Progress_event nat nat rat
  | Complete_event nat nat rat
  | Error_event py_exception

fun stream_lines ::
  "(string \<Rightarrow> py_exception + 'obj) \<Rightarrow> (nat \<times> string) list \<Rightarrow> nat \<Rightarrow> nat
     \<Rightarrow> processing_record option
     \<Rightarrow> json_event list \<times> (py_exception + nat \<times> nat) \<times> processing_record option" where
  "stream_lines json_loads [] line_count parsed_objects rec =
     ([], Inr (line_count, parsed_objects), rec)"
| "stream_lines json_loads ((line_num, line) # rest) line_count parsed_objects rec =
     (if strip line \<noteq> [] then
        (case json_loads (strip line) of
           Inr obj \<Rightarrow>
             if line_num mod 10000 = 0 then
               (case rec of
                  None \<Rightarrow> ([], Inl KeyError, rec)
                | Some r \<Rightarrow>
                    (let p = min 90 (of_nat line_num / 100000 * 90);
                         (evs, res, rec1) =
                            stream_lines json_loads rest line_num (parsed_objects + 1)
                              (Some (r\<lparr>progress := p,
                                       message := Processed_JSON_objects (parsed_objects + 1)\<rparr>))
                     in (Progress_event line_num (parsed_objects + 1) p # evs, res, rec1)))
             else stream_lines json_loads rest line_num (parsed_objects + 1) rec
         | Inl JSONDecodeError \<Rightarrow> stream_lines json_loads rest line_count parsed_objects rec
         | Inl e \<Rightarrow> ([], Inl e, rec))
      else stream_lines json_loads rest line_num parsed_objects rec)"

definition stream_large_json ::
  "(string \<Rightarrow> py_exception + 'obj) \<Rightarrow> string list \<Rightarrow> processing_record option \<Rightarrow> rat
     \<Rightarrow> json_event list \<times> processing_record option" where
  "stream_large_json json_loads file_lines rec now =
     (case stream_lines json_loads (enumerate 1 file_lines) 0 0 rec of
        (evs, Inl e, rec1) \<Rightarrow> (evs @ [Error_event e], rec1)
      | (evs, Inr (line_count, parsed_objects), rec1) \<Rightarrow>
          (case rec1 of
             None \<Rightarrow> (evs @ [Error_event KeyError], rec1)
           | Some r \<Rightarrow>
               (case start_time r of
                  None \<Rightarrow> (evs @ [Error_event KeyError], rec1)
                | Some t0 \<Rightarrow>
                    (evs @ [Complete_event line_count parsed_objects (now - t0)], rec1))))"

text \<open>A line parses when it is not blank and \<open>json.loads\<close> returns; it is malformed
  when it is not blank and \<open>json.loads\<close> raises \<open>JSONDecodeError\<close>. \<open>last_counted\<close>
  is the number of the last line that is not malformed.\<close>

definition line_parses :: "(string \<Rightarrow> py_exception + 'obj) \<Rightarrow> string \<Rightarrow> bool" where
  "line_parses json_loads line = (strip line \<noteq> [] \<and> \<not> isl (json_loads (strip line)))"

definition line_malformed :: "(string \<Rightarrow> py_exception + 'obj) \<Rightarrow> string \<Rightarrow> bool" where
  "line_malformed json_loads line =
     (strip line \<noteq> [] \<and> json_loads (strip line) = Inl JSONDecodeError)"

fun last_counted ::
  "(string \<Rightarrow> py_exception + 'obj) \<Rightarrow> (nat \<times> string) list \<Rightarrow> nat \<Rightarrow> nat" where
  "last_counted json_loads [] line_count = line_count"
| "last_counted json_loads ((line_num, line) # rest) line_count =
     last_counted json_loads rest
       (if line_malformed json_loads line then line_count else line_num)"

section \<open>Properties of the result cache\<close>

lemma keys_delete: "fst ` set (AList.delete k xs) = fst ` set xs - {k}"
  by (induction xs) auto

lemma keys_fold_delete: "fst ` set (fold AList.delete ks xs) = fst ` set xs - set ks"
  by (induction ks arbitrary: xs) (auto simp: keys_delete)

lemma distinct_fold_delete:
  "distinct (map fst xs) \<Longrightarrow> distinct (map fst (fold AList.delete ks xs))"
  by (induction ks arbitrary: xs) (auto simp: distinct_delete)

text \<open>The eviction loop returns when every key of the dict has an entry in the deque
  and \<open>max_size\<close> is not negative: each round pops one deque entry, and an empty deque
  then means an empty dict. By induction on the deque.\<close>

lemma evict_loop_total:
  "dict_ok c \<Longrightarrow> queue_covers c \<Longrightarrow> 0 \<le> max_size c \<Longrightarrow>
   \<exists>c'. evict_loop c = Some c' \<and> dict_ok c' \<and> queue_covers c' \<and>
        of_nat (length (cache c')) \<le> of_int (max_size c') * (4 / 5 :: rat) \<and>
        max_size c' = max_size c \<and> ttl c' = ttl c"
proof (induction "access_times c" arbitrary: c)
  case Nil
  then have "cache c = []" by (simp add: queue_covers_def)
  with Nil show ?case
    by (subst evict_loop.simps) simp
next
  case (Cons e rest)
  obtain old_key t where e: "e = (old_key, t)" by (cases e)
  let ?c1 = "c\<lparr>access_times := rest,
                cache := (if old_key \<in> fst ` set (cache c)
                          then AList.delete old_key (cache c) else cache c)\<rparr>"
  show ?case
  proof (cases "of_nat (length (cache c)) > of_int (max_size c) * (4 / 5 :: rat)")
    case False
    with Cons.prems show ?thesis
      by (subst evict_loop.simps) simp
  next
    case True
    have a: "rest = access_times ?c1" by simp
    have d: "dict_ok ?c1" using Cons.prems(1) by (simp add: dict_ok_def distinct_delete)
    have q: "queue_covers ?c1"
      using Cons.prems(2) Cons.hyps(2)[symmetric] e
      by (auto simp: queue_covers_def keys_delete)
    have m: "0 \<le> max_size ?c1" using Cons.prems(3) by simp
    from Cons.hyps(1)[OF a d q m] obtain c' where
      "evict_loop ?c1 = Some c'" "dict_ok c'" "queue_covers c'"
      "of_nat (length (cache c')) \<le> of_int (max_size c') * (4 / 5 :: rat)"
      "max_size c' = max_size ?c1" "ttl c' = ttl ?c1" by blast
    moreover have "evict_loop c = evict_loop ?c1"
      using True Cons.hyps(2)[symmetric] e by (subst evict_loop.simps) simp
    ultimately show ?thesis by simp
  qed
qed






text \<open>
  Claim C5 at a concrete run (\<open>max_size = 2\<close>, \<open>ttl = 10\<close>). The key \<open>k\<close> is inserted
  at time 0 and dropped by a \<open>get\<close> at time 10, which leaves its entry in the deque.
  Then \<open>a\<close> is inserted at 11, \<open>b\<close> at 12 and \<open>k\<close> again at 13. The last insert makes
  three entries; nothing has expired; the eviction loop pops the stale deque entry of
  \<open>k\<close> and deletes the entry of \<open>k\<close> written a moment before, then evicts \<open>a\<close>. The
  dict is left with \<open>b\<close>: the newest entry went first and an older one stays, where
  eviction in insertion order leaves \<open>k\<close>.
\<close>

theorem cleanup_evicts_newest_entry:
  "AdvancedCache_set (AdvancedCache_init 2 10) ''k'' (1::nat) 0 0
     = Some \<lparr>cache = [(''k'', (1, 0))], access_times = [(''k'', 0)], max_size = 2, ttl = 10\<rparr>
   \<and> AdvancedCache_get \<lparr>cache = [(''k'', (1::nat, 0))], access_times = [(''k'', 0)],
         max_size = 2, ttl = 10\<rparr> 10 ''k''
     = (None, \<lparr>cache = [], access_times = [(''k'', 0)], max_size = 2, ttl = 10\<rparr>)
   \<and> AdvancedCache_set \<lparr>cache = [], access_times = [(''k'', 0)], max_size = 2, ttl = 10\<rparr>
         ''a'' (2::nat) 11 11
     = Some \<lparr>cache = [(''a'', (2, 11))], access_times = [(''k'', 0), (''a'', 11)],
              max_size = 2, ttl = 10\<rparr>
   \<and> AdvancedCache_set \<lparr>cache = [(''a'', (2::nat, 11))],
         access_times = [(''k'', 0), (''a'', 11)], max_size = 2, ttl = 10\<rparr> ''b'' 3 12 12
     = Some \<lparr>cache = [(''a'', (2, 11)), (''b'', (3, 12))],
              access_times = [(''k'', 0), (''a'', 11), (''b'', 12)], max_size = 2, ttl = 10\<rparr>
   \<and> AdvancedCache_set \<lparr>cache = [(''a'', (2::nat, 11)), (''b'', (3, 12))],
         access_times = [(''k'', 0), (''a'', 11), (''b'', 12)], max_size = 2, ttl = 10\<rparr>
         ''k'' 4 13 13
     = Some \<lparr>cache = [(''b'', (3, 12))], access_times = [(''b'', 12), (''k'', 13)],
              max_size = 2, ttl = 10\<rparr>"
  by (simp add: AdvancedCache_set_def AdvancedCache_cleanup_def expired_keys_def
      evict_loop.simps AdvancedCache_get_def AdvancedCache_init_def)

text \<open>
  Claim C9: \<open>get\<close>, \<open>set\<close> and the cleanup pass preserve the invariant that every
  key of the dict has an entry in the deque \<open>access_times\<close> (and that the dict's keys
  are distinct); under the invariant, with a \<open>max_size\<close> that is not negative, \<open>set\<close>,
  the cleanup pass and its eviction loop return, and the cleanup pass and the loop
  leave at most \<open>0.8 * max_size\<close> entries.
\<close>

theorem cache_invariant_preserved:
  assumes "dict_ok c" and "queue_covers c" and "0 \<le> max_size c"
  shows "(dict_ok (snd (AdvancedCache_get c now key))
          \<and> queue_covers (snd (AdvancedCache_get c now key)))
       \<and> (\<exists>c'. AdvancedCache_set c key v t1 t2 = Some c' \<and> dict_ok c' \<and> queue_covers c')
       \<and> (\<exists>c'. AdvancedCache_cleanup c now = Some c' \<and> dict_ok c' \<and> queue_covers c'
               \<and> of_nat (length (cache c')) \<le> of_int (max_size c) * (4 / 5 :: rat))
       \<and> (\<exists>c'. evict_loop c = Some c' \<and> dict_ok c' \<and> queue_covers c'
               \<and> of_nat (length (cache c')) \<le> of_int (max_size c) * (4 / 5 :: rat))"
proof -
  have g: "dict_ok (snd (AdvancedCache_get c now key))
           \<and> queue_covers (snd (AdvancedCache_get c now key))"
    using assms(1,2)
    by (auto simp: AdvancedCache_get_def dict_ok_def queue_covers_def distinct_delete keys_delete
        split: option.splits)
  have cl: "\<exists>c'. AdvancedCache_cleanup d t = Some c' \<and> dict_ok c' \<and> queue_covers c'
               \<and> of_nat (length (cache c')) \<le> of_int (max_size d) * (4 / 5 :: rat)"
    if "dict_ok d" "queue_covers d" "0 \<le> max_size d" for d :: "('a, 'b) AdvancedCache" and t
  proof -
    let ?d1 = "d\<lparr>cache := fold AList.delete (expired_keys d t) (cache d)\<rparr>"
    have "dict_ok ?d1" using that(1) by (simp add: dict_ok_def distinct_fold_delete)
    moreover have "queue_covers ?d1" using that(2)
      by (auto simp: queue_covers_def keys_fold_delete)
    moreover have "0 \<le> max_size ?d1" using that(3) by simp
    ultimately show ?thesis
      using evict_loop_total [of ?d1] by (auto simp: AdvancedCache_cleanup_def)
  qed
  let ?c1 = "c\<lparr>cache := AList.update key (v, t1) (cache c),
                access_times := access_times c @ [(key, t1)]\<rparr>"
  have d1: "dict_ok ?c1" using assms(1) by (simp add: dict_ok_def distinct_update)
  have q1: "queue_covers ?c1" using assms(2)
    by (auto simp: queue_covers_def dom_update)
  have m1: "0 \<le> max_size ?c1" using assms(3) by simp
  have s: "\<exists>c'. AdvancedCache_set c key v t1 t2 = Some c' \<and> dict_ok c' \<and> queue_covers c'"
  proof (cases "int (length (cache ?c1)) > max_size ?c1")
    case True
    then show ?thesis using cl [OF d1 q1 m1, of t2] by (auto simp: AdvancedCache_set_def Let_def)
  next
    case False
    then show ?thesis using d1 q1 by (simp add: AdvancedCache_set_def Let_def)
  qed
  show ?thesis using g s cl [OF assms] evict_loop_total [OF assms] by auto
qed

theorem cache_invariant_preserved_witness:
  "dict_ok \<lparr>cache = [(''k'', (1::nat, 0)), (''a'', (2, 1)), (''b'', (3, 2))],
            access_times = [(''k'', 0), (''a'', 1), (''b'', 2)], max_size = 2, ttl = 10\<rparr>
   \<and> queue_covers \<lparr>cache = [(''k'', (1::nat, 0)), (''a'', (2, 1)), (''b'', (3, 2))],
            access_times = [(''k'', 0), (''a'', 1), (''b'', 2)], max_size = 2, ttl = 10\<rparr>
   \<and> (\<exists>c'. AdvancedCache_cleanup
              \<lparr>cache = [(''k'', (1::nat, 0)), (''a'', (2, 1)), (''b'', (3, 2))],
               access_times = [(''k'', 0), (''a'', 1), (''b'', 2)], max_size = 2, ttl = 10\<rparr> 3
            = Some c' \<and> queue_covers c' \<and> of_nat (length (cache c')) \<le> (8 / 5 :: rat))"
proof -
  let ?c = "\<lparr>cache = [(''k'', (1::nat, 0::rat)), (''a'', (2, 1)), (''b'', (3, 2))],
             access_times = [(''k'', 0::rat), (''a'', 1), (''b'', 2)],
             max_size = 2, ttl = 10\<rparr>"
  have d: "dict_ok ?c" by (simp add: dict_ok_def)
  have q: "queue_covers ?c" by (simp add: queue_covers_def)
  have m: "0 \<le> max_size ?c" by simp
  show ?thesis
    using d q cache_invariant_preserved [OF d q m, of 3 "''k''" 1 3 3] by auto
qed


section \<open>Properties of the chunk store\<close>

lemma digit_val_digit_char: "d < 10 \<Longrightarrow> digit_val (digit_char d) = d"
proof -
  assume "d < 10"
  then have "d \<in> set [0..<10]" by simp
  moreover have "\<forall>d \<in> set [0..<10]. digit_val (digit_char d) = d"
    by (simp add: upt_conv_Cons digit_val_def digit_char_def)
  ultimately show ?thesis by blast
qed

lemma dec_val_snoc: "dec_val (s @ [c]) = 10 * dec_val s + digit_val c"
  by (simp add: dec_val_def)

lemma dec_val_digits: "dec_val (digits n) = n"
proof (induction n rule: digits.induct)
  case (1 n)
  show ?case
  proof (cases "n < 10")
    case True
    then show ?thesis by (subst digits.simps) (simp add: dec_val_def digit_val_digit_char)
  next
    case False
    then have "dec_val (digits n) = 10 * dec_val (digits (n div 10)) + digit_val (digit_char (n mod 10))"
      by (subst digits.simps) (simp add: dec_val_snoc)
    with False 1 show ?thesis by (simp add: digit_val_digit_char)
  qed
qed

lemma dec_val_zeros: "dec_val (replicate k (CHR ''0'') @ s) = dec_val s"
proof -
  have "foldl (\<lambda>a c. 10 * a + digit_val c) 0 (replicate k (CHR ''0'')) = 0"
    by (induction k) (simp_all add: digit_val_def)
  then show ?thesis by (simp add: dec_val_def)
qed

lemma chunk_name_inj: "chunk_name (int i) = chunk_name (int j) \<Longrightarrow> i = j"
proof -
  assume "chunk_name (int i) = chunk_name (int j)"
  then have "zfill 4 (digits i) = zfill 4 (digits j)"
    by (simp add: chunk_name_def format_04d_def)
  then have "dec_val (zfill 4 (digits i)) = dec_val (zfill 4 (digits j))" by simp
  then show "i = j" by (simp add: zfill_def dec_val_zeros dec_val_digits)
qed

lemma chunk_name_prefix: "take 6 (chunk_name i) = ''chunk_''"
  by (simp add: chunk_name_def)

lemma update_chunk_files:
  "AList.update (chunk_name (int i)) c (chunk_files al) = chunk_files (AList.update i c al)"
  by (induction al) (auto simp: chunk_files_def dest: chunk_name_inj)

lemma glob_chunk_files: "glob_chunks (chunk_files al) = chunk_files al"
  by (induction al) (auto simp: glob_chunks_def chunk_files_def chunk_name_prefix)

lemma map_of_chunk_files: "map_of (chunk_files al) (chunk_name (int i)) = map_of al i"
  by (induction al) (auto simp: chunk_files_def dest: chunk_name_inj)

lemma reassemble_chunk_files:
  "set js \<subseteq> fst ` set al \<Longrightarrow>
   reassemble (chunk_files al) (map int js) written
     = (written @ concat (map (\<lambda>i. the (map_of al i)) js), None)"
proof (induction js arbitrary: written)
  case Nil
  then show ?case by simp
next
  case (Cons j js)
  then obtain c where "map_of al j = Some c"
    by (metis list.set_intros(1) subsetD weak_map_of_SomeI map_of_eq_None_iff not_None_eq)
  with Cons show ?case by (simp add: map_of_chunk_files)
qed

lemma keys_full_iff:
  assumes "distinct (map fst al)" and "fst ` set al \<subseteq> {0..<N}"
  shows "(length al = N) = (fst ` set al = {0..<N})"
proof -
  have "length al = card (fst ` set al)"
    using assms(1) distinct_card [of "map fst al"] by simp
  moreover have "fst ` set al = {0..<N}" if "card (fst ` set al) = N"
  proof (rule card_subset_eq [OF _ assms(2)])
    show "finite {0..<N}" by simp
    show "card (fst ` set al) = card {0..<N}" using that by simp
  qed
  moreover have "card (fst ` set al) = N" if "fst ` set al = {0..<N}"
    unfolding that by simp
  ultimately show ?thesis by metis
qed

lemma staging_dir_update:
  "staging_dir (fs\<lparr>chunk_dirs := AList.update fid d (chunk_dirs fs)\<rparr>) fid = d"
  by (simp add: staging_dir_def update_conv')

lemma map_of_delete_same: "map_of (AList.delete k al) k = None"
  by (simp add: delete_conv')

text \<open>One call that does not complete the upload.\<close>

lemma upload_step_incomplete:
  assumes "staging_holds fs fid al"
    and "fst ` set al \<subseteq> {0..<N}" and "idx < N"
    and "fst ` set (AList.update idx content al) \<noteq> {0..<N}"
  shows "upload_file_chunk fs content (int idx) (int N) fid fname =
          (Inr (ChunkReceived (int idx) (int N) (length (AList.update idx content al))
                 (of_nat (length (AList.update idx content al)) / of_nat N * 100)),
           fs\<lparr>chunk_dirs := AList.update fid (chunk_files (AList.update idx content al))
                               (chunk_dirs fs)\<rparr>)"
    and "staging_holds (snd (upload_file_chunk fs content (int idx) (int N) fid fname)) fid
           (AList.update idx content al)"
proof -
  let ?al = "AList.update idx content al"
  have d: "distinct (map fst ?al)" using assms(1) by (simp add: staging_holds_def distinct_update)
  have k: "fst ` set ?al \<subseteq> {0..<N}" using assms(2,3) by (auto simp: dom_update)
  have n: "length ?al \<noteq> N" using keys_full_iff [OF d k] assms(4) by simp
  have s: "staging_dir fs fid = chunk_files al" using assms(1) by (simp add: staging_holds_def)
  have l: "length (chunk_files ?al) = length ?al" by (simp add: chunk_files_def)
  show 1: "upload_file_chunk fs content (int idx) (int N) fid fname =
          (Inr (ChunkReceived (int idx) (int N) (length ?al)
                 (of_nat (length ?al) / of_nat N * 100)),
           fs\<lparr>chunk_dirs := AList.update fid (chunk_files ?al) (chunk_dirs fs)\<rparr>)"
    using n assms(3)
    by (simp add: upload_file_chunk_def Let_def s update_chunk_files glob_chunk_files l)
  show "staging_holds (snd (upload_file_chunk fs content (int idx) (int N) fid fname)) fid ?al"
    using d by (simp add: 1 staging_holds_def staging_dir_update)
qed

text \<open>The call that brings the last missing chunk.\<close>

lemma upload_step_complete:
  assumes "staging_holds fs fid al"
    and "fst ` set (AList.update idx content al) = {0..<N}"
  shows "upload_file_chunk fs content (int idx) (int N) fid fname =
          (Inr (Complete fname True),
           fs\<lparr>chunk_dirs := AList.update fid (chunk_files (AList.update idx content al))
                               (chunk_dirs fs),
               files := AList.update fname
                  (concat (map (\<lambda>i. the (map_of (AList.update idx content al) i)) [0..<N]))
                  (files fs),
               chunk_dirs := AList.delete fid
                  (AList.update fid (chunk_files (AList.update idx content al)) (chunk_dirs fs))\<rparr>)"
proof -
  let ?al = "AList.update idx content al"
  have d: "distinct (map fst ?al)" using assms(1) by (simp add: staging_holds_def distinct_update)
  have k: "fst ` set ?al \<subseteq> {0..<N}" using assms(2) by simp
  have n: "length ?al = N" using keys_full_iff [OF d k] assms(2) by simp
  have s: "staging_dir fs fid = chunk_files al" using assms(1) by (simp add: staging_holds_def)
  have l: "length (chunk_files ?al) = length ?al" by (simp add: chunk_files_def)
  have r: "reassemble (chunk_files ?al) (map int [0..<N]) []
             = (concat (map (\<lambda>i. the (map_of ?al i)) [0..<N]), None)"
  proof -
    have "set [0..<N] \<subseteq> fst ` set ?al" unfolding assms(2) by simp
    from reassemble_chunk_files [OF this, of "[]"] show ?thesis by simp
  qed
  show ?thesis
    by (simp add: upload_file_chunk_def Let_def s update_chunk_files glob_chunk_files l n r)
qed

lemma map_of_staged_after:
  "map_of (staged_after us al) k = (case map_of (rev us) k of Some c \<Rightarrow> Some c | None \<Rightarrow> map_of al k)"
  by (induction us al rule: staged_after.induct)
     (auto simp: update_conv' map_add_def split: option.splits)

lemma upload_sequence_completes:
  assumes "staging_holds fs fid al" and "us \<noteq> []"
    and "fst ` set al \<union> fst ` set us = {0..<N}"
    and "fst ` set al \<union> fst ` set (butlast us) \<noteq> {0..<N}"
  shows "\<exists>rs fs'. upload_sequence fs us N fid fname = (rs, fs') \<and> rs \<noteq> [] \<and>
           last rs = Inr (Complete fname True) \<and>
           map_of (files fs') fname =
             Some (concat (map (\<lambda>i. the (map_of (staged_after us al) i))
                     [0..<N])) \<and>
           map_of (chunk_dirs fs') fid = None"
  using assms
proof (induction us arbitrary: fs al)
  case Nil
  then show ?case by simp
next
  case (Cons u rest)
  obtain i c where u: "u = (i, c)" by (cases u)
  let ?al = "AList.update i c al"
  have keys: "fst ` set ?al = insert i (fst ` set al)" by (simp add: dom_update)
  show ?case
  proof (cases "rest = []")
    case True
    with Cons.prems(3) u keys have full: "fst ` set ?al = {0..<N}" by auto
    show ?thesis
      using True u upload_step_complete [OF Cons.prems(1) full, of fname]
      by (simp add: update_conv' delete_conv')
  next
    case False
    have sub: "fst ` set (butlast rest) \<subseteq> fst ` set rest"
      by (auto dest: in_set_butlastD)
    have notfull: "fst ` set ?al \<noteq> {0..<N}"
    proof
      assume "fst ` set ?al = {0..<N}"
      moreover have "fst ` set (butlast rest) \<subseteq> {0..<N}"
        using sub Cons.prems(3) by auto
      ultimately have "fst ` set al \<union> fst ` set (butlast (u # rest)) = {0..<N}"
        using False u keys by auto
      with Cons.prems(4) show False by simp
    qed
    have i: "i < N" using Cons.prems(3) u by auto
    have al: "fst ` set al \<subseteq> {0..<N}" using Cons.prems(3) by auto
    note step = upload_step_incomplete [OF Cons.prems(1) al i notfull, of fname]
    let ?fs1 = "snd (upload_file_chunk fs c (int i) (int N) fid fname)"
    have p3: "fst ` set ?al \<union> fst ` set rest = {0..<N}"
      using Cons.prems(3) u keys by auto
    have p4: "fst ` set ?al \<union> fst ` set (butlast rest) \<noteq> {0..<N}"
      using Cons.prems(4) u keys False by auto
    from Cons.IH [OF step(2) False p3 p4] obtain rs fs' where
      r: "upload_sequence ?fs1 rest N fid fname = (rs, fs')" "rs \<noteq> []"
         "last rs = Inr (Complete fname True)"
         "map_of (files fs') fname =
             Some (concat (map (\<lambda>i. the (map_of (staged_after rest ?al) i))
                     [0..<N]))"
         "map_of (chunk_dirs fs') fid = None" by blast
    show ?thesis using r u
      by (simp add: split_beta)
  qed
qed

text \<open>
  Claim C1: a file is split into the chunks \<open>chunks\<close>, \<open>N = length chunks\<close>, and
  the calls \<open>us\<close> of one upload arrive in any order, retransmissions included: every
  index below \<open>N\<close> arrives, only the last call completes the set of indices, and the
  last call of each index carries that chunk's bytes. Starting with no staged chunk,
  the last response is \<open>complete\<close>, the assembled file is the concatenation of the
  chunks in ascending index order, which is the original file \<open>concat chunks\<close>, and
  the staging directory of the upload is gone.
\<close>

theorem chunks_reassembled_in_index_order:
  assumes "staging_dir fs fid = []"
    and "fst ` set us = {0..<length chunks}"
    and "fst ` set (butlast us) \<noteq> {0..<length chunks}"
    and "map (map_of (rev us)) [0..<length chunks] = map Some chunks"
  shows "\<exists>rs fs'. upload_sequence fs us (length chunks) fid fname = (rs, fs') \<and>
           last rs = Inr (Complete fname True) \<and>
           map_of (files fs') fname = Some (concat chunks) \<and>
           map_of (chunk_dirs fs') fid = None"
proof -
  have h: "staging_holds fs fid []" using assms(1) by (simp add: staging_holds_def chunk_files_def)
  have ne: "us \<noteq> []" using assms(2,3) by auto
  have "map_of (rev us) i = Some (chunks ! i)" if "i < length chunks" for i
  proof -
    have "map (map_of (rev us)) [0..<length chunks] ! i = map Some chunks ! i"
      using assms(4) by simp
    with that show ?thesis by simp
  qed
  then have "map (\<lambda>i. the (map_of (staged_after us []) i)) [0..<length chunks]
          = map (\<lambda>i. chunks ! i) [0..<length chunks]"
    by (simp add: map_of_staged_after)
  then have c: "map (\<lambda>i. the (map_of (staged_after us []) i)) [0..<length chunks]
          = chunks" by (simp add: map_nth)
  show ?thesis
    using upload_sequence_completes [OF h ne, of "length chunks" fname] assms(2,3) c
    by auto
qed

theorem chunks_reassembled_in_index_order_witness:
  "staging_dir \<lparr>chunk_dirs = [], files = []\<rparr> ''f1'' = []
   \<and> fst ` set [(2, ''cc''), (0, ''aa''), (1::nat, ''bb'')] = {0..<length [''aa'', ''bb'', ''cc'']}
   \<and> fst ` set (butlast [(2, ''cc''), (0, ''aa''), (1::nat, ''bb'')]) \<noteq> {0..<length [''aa'', ''bb'', ''cc'']}
   \<and> map (map_of (rev [(2, ''cc''), (0, ''aa''), (1::nat, ''bb'')])) [0..<length [''aa'', ''bb'', ''cc'']]
       = map Some [''aa'', ''bb'', ''cc'']
   \<and> (\<exists>rs fs'. upload_sequence \<lparr>chunk_dirs = [], files = []\<rparr>
               [(2, ''cc''), (0, ''aa''), (1, ''bb'')] (length [''aa'', ''bb'', ''cc'']) ''f1'' ''out.csv''
               = (rs, fs') \<and>
             last rs = Inr (Complete ''out.csv'' True) \<and>
             map_of (files fs') ''out.csv'' = Some ''aabbcc'' \<and>
             map_of (chunk_dirs fs') ''f1'' = None)"
proof -
  let ?fs = "\<lparr>chunk_dirs = [], files = []\<rparr>"
  let ?us = "[(2, ''cc''), (0, ''aa''), (1::nat, ''bb'')]"
  let ?chunks = "[''aa'', ''bb'', ''cc'']"
  have h1: "staging_dir ?fs ''f1'' = []" by (simp add: staging_dir_def)
  have h2: "fst ` set ?us = {0..<length ?chunks}" by (auto simp: atLeastLessThan_nat_numeral)
  have "(1::nat) \<in> {0..<length ?chunks}" by simp
  moreover have "(1::nat) \<notin> fst ` set (butlast ?us)" by simp
  ultimately have h3: "fst ` set (butlast ?us) \<noteq> {0..<length ?chunks}" by metis
  have h4: "map (map_of (rev ?us)) [0..<length ?chunks] = map Some ?chunks"
    by (simp add: upt_rec)
  have c: "concat ?chunks = ''aabbcc''" by simp
  note r = chunks_reassembled_in_index_order [OF h1 h2 h3 h4, of "''out.csv''", unfolded c]
  show ?thesis
    by (intro conjI h1 h2 h3 h4 r)
qed


text \<open>
  Claim C8: the staging directory holds the chunks \<open>al\<close> of a file of \<open>N\<close> chunks
  and a call brings chunk \<open>idx < N\<close>. When a chunk is still missing after the call,
  the response is \<open>chunk_received\<close> with \<open>uploaded_chunks\<close> the number of chunks
  received and \<open>progress = (received / N) * 100\<close>, read in exact arithmetic; the
  call that brings the last missing chunk answers \<open>complete\<close> with the path of the
  assembled file and \<open>ready_for_processing\<close> true. The witness is the upload of
  three chunks in the order 2, 0, 1.
\<close>

theorem upload_chunk_response:
  assumes "staging_holds fs fid al" and "fst ` set al \<subseteq> {0..<N}" and "idx < N"
  shows "fst (upload_file_chunk fs content (int idx) (int N) fid fname) =
          (if fst ` set (AList.update idx content al) = {0..<N}
           then Inr (Complete fname True)
           else Inr (ChunkReceived (int idx) (int N) (length (AList.update idx content al))
                  (of_nat (length (AList.update idx content al)) / of_nat N * 100)))"
proof (cases "fst ` set (AList.update idx content al) = {0..<N}")
  case True
  then show ?thesis using upload_step_complete [OF assms(1) True, of fname] by simp
next
  case False
  then show ?thesis using upload_step_incomplete(1) [OF assms False, of fname] by simp
qed


theorem upload_chunk_response_witness:
  "staging_holds \<lparr>chunk_dirs = [(''f1'', [(''chunk_0002'', ''cc''), (''chunk_0000'', ''aa'')])],
                   files = []\<rparr> ''f1'' [(2, ''cc''), (0, ''aa'')]
   \<and> fst ` set [(2::nat, ''cc''), (0, ''aa'')] \<subseteq> {0..<3}
   \<and> (1::nat) < 3
   \<and> upload_sequence \<lparr>chunk_dirs = [], files = []\<rparr> [(2, ''cc''), (0, ''aa'')] 3 ''f1'' ''out.csv''
       = ([Inr (ChunkReceived 2 3 1 (100 / 3)), Inr (ChunkReceived 0 3 2 (200 / 3))],
          \<lparr>chunk_dirs = [(''f1'', [(''chunk_0002'', ''cc''), (''chunk_0000'', ''aa'')])],
           files = []\<rparr>)
   \<and> fst (upload_file_chunk
            \<lparr>chunk_dirs = [(''f1'', [(''chunk_0002'', ''cc''), (''chunk_0000'', ''aa'')])],
             files = []\<rparr> ''bb'' 1 3 ''f1'' ''out.csv'') = Inr (Complete ''out.csv'' True)"
proof -
  let ?fs = "\<lparr>chunk_dirs = [(''f1'', [(''chunk_0002'', ''cc''), (''chunk_0000'', ''aa'')])],
             files = []\<rparr>"
  let ?al = "[(2::nat, ''cc''), (0, ''aa'')]"
  have names: "chunk_name 2 = ''chunk_0002''" "chunk_name 0 = ''chunk_0000''"
    by code_simp+
  have h1: "staging_holds ?fs ''f1'' ?al"
    by (simp add: staging_holds_def staging_dir_def chunk_files_def names)
  have h2: "fst ` set ?al \<subseteq> {0..<3}" by simp
  have h3: "(1::nat) < 3" by simp
  have full: "fst ` set (AList.update 1 ''bb'' ?al) = {0..<3}"
    by (auto simp: atLeastLessThan_nat_numeral)
  have seq: "upload_sequence \<lparr>chunk_dirs = [], files = []\<rparr> [(2, ''cc''), (0, ''aa'')] 3 ''f1'' ''out.csv''
       = ([Inr (ChunkReceived 2 3 1 (100 / 3)), Inr (ChunkReceived 0 3 2 (200 / 3))], ?fs)"
    by code_simp
  have r: "fst (upload_file_chunk ?fs ''bb'' 1 3 ''f1'' ''out.csv'') = Inr (Complete ''out.csv'' True)"
    using upload_chunk_response [OF h1 h2 h3, of "''bb''" "''out.csv''"] full by simp
  show ?thesis
    by (intro conjI h1 h2 h3 seq r)
qed

section \<open>Properties of the status stream\<close>







text \<open>
  Claim C10: for a processing id with no record in the status store, the streaming
  endpoint raises the 404 \<open>Processing ID not found\<close>; no event stream is returned,
  whatever later polls would find.
\<close>

theorem stream_unknown_id_not_found:
  "processing_status processing_id = None \<Longrightarrow>
   stream_processing_progress processing_status processing_id start polls
     = Inl (HTTPException 404 Processing_ID_not_found)"
  by (simp add: stream_processing_progress_def)

theorem stream_unknown_id_not_found_witness:
  "(Map.empty :: status_store) ''abc'' = None
   \<and> stream_processing_progress Map.empty ''abc'' 0
        [(Some \<lparr>status = ''processing'', progress = 50, message = Processing_file,
                start_time = Some 0\<rparr>, 1)]
      = Inl (HTTPException 404 Processing_ID_not_found)"
proof -
  have h: "(Map.empty :: status_store) ''abc'' = None" by simp
  show ?thesis using h stream_unknown_id_not_found [OF h] by simp
qed

section \<open>Properties of the status record\<close>











section \<open>Properties of JSON-Lines streaming\<close>

lemma stream_lines_result:
  assumes "\<forall>(n, l) \<in> set ls. line_parses L l \<or> line_malformed L l \<or> strip l = []"
  shows "\<exists>evs r'. stream_lines L ls lc po (Some r)
            = (evs, Inr (last_counted L ls lc,
                         po + length (filter (\<lambda>(n, l). line_parses L l) ls)), Some r')
          \<and> start_time r' = start_time r
          \<and> (\<forall>e \<in> set evs. \<exists>a b c. e = Progress_event a b c)"
  using assms
proof (induction ls arbitrary: lc po r)
  case Nil
  then show ?case by simp
next
  case (Cons x ls)
  obtain n l where x: "x = (n, l)" by (cases x)
  have rest: "\<forall>(n, l) \<in> set ls. line_parses L l \<or> line_malformed L l \<or> strip l = []"
    using Cons.prems by simp
  note ih = Cons.IH [OF rest]
  consider (blank) "strip l = []"
    | (mal) "strip l \<noteq> []" "L (strip l) = Inl JSONDecodeError"
    | (ok) obj where "strip l \<noteq> []" "L (strip l) = Inr obj"
    using Cons.prems x by (cases "L (strip l)") (auto simp: line_parses_def line_malformed_def)
  then show ?case
  proof cases
    case blank
    then show ?thesis using ih [of n po r] x
      by (simp add: line_parses_def line_malformed_def)
  next
    case mal
    then show ?thesis using ih [of lc po r] x
      by (simp add: line_parses_def line_malformed_def)
  next
    case ok
    show ?thesis
    proof (cases "n mod 10000 = 0")
      case False
      then show ?thesis using ok ih [of n "po + 1" r] x
        by (simp add: line_parses_def line_malformed_def)
    next
      case True
      let ?r = "r\<lparr>progress := min 90 (of_nat n / 100000 * 90),
                  message := Processed_JSON_objects (po + 1)\<rparr>"
      from ih [of n "po + 1" ?r] obtain evs r' where
        "stream_lines L ls n (po + 1) (Some ?r)
           = (evs, Inr (last_counted L ls n,
                        po + 1 + length (filter (\<lambda>(n, l). line_parses L l) ls)), Some r')"
        "start_time r' = start_time ?r"
        "\<forall>e \<in> set evs. \<exists>a b c. e = Progress_event a b c" by blast
      then show ?thesis using True ok x
        by (simp add: line_parses_def line_malformed_def)
    qed
  qed
qed

lemma last_counted_append:
  "last_counted L (xs @ ys) lc = last_counted L ys (last_counted L xs lc)"
  by (induction xs arbitrary: lc) auto

lemma enumerate_snoc: "enumerate k (xs @ [x]) = enumerate k xs @ [(k + length xs, x)]"
  by (simp add: enumerate_append_eq)

lemma filter_enumerate_length:
  "length (filter (\<lambda>(n, l). P l) (enumerate k xs)) = length (filter P xs)"
  by (induction xs arbitrary: k) auto

text \<open>With a status record that has its start time and a \<open>json.loads\<close> that raises
  nothing but \<open>JSONDecodeError\<close>, the stream is progress events followed by one
  complete event; \<open>parsed_objects\<close> is the number of lines that parse.\<close>

lemma stream_large_json_counts:
  assumes "\<forall>l \<in> set file_lines. line_parses L l \<or> line_malformed L l \<or> strip l = []"
    and "start_time r = Some t0"
  shows "\<exists>evs r'. stream_large_json L file_lines (Some r) now
            = (evs @ [Complete_event (last_counted L (enumerate 1 file_lines) 0)
                        (length (filter (line_parses L) file_lines)) (now - t0)], Some r')
          \<and> (\<forall>e \<in> set evs. \<exists>a b c. e = Progress_event a b c)"
proof -
  have "l \<in> set file_lines" if "(n, l) \<in> set (enumerate 1 file_lines)" for n l
    using that by (auto simp: enumerate_eq_zip dest: set_zip_rightD)
  then have "\<forall>(n, l) \<in> set (enumerate 1 file_lines).
               line_parses L l \<or> line_malformed L l \<or> strip l = []"
    using assms(1) by blast
  from stream_lines_result [OF this, of 0 0 r] obtain evs r' where
    "stream_lines L (enumerate 1 file_lines) 0 0 (Some r)
       = (evs, Inr (last_counted L (enumerate 1 file_lines) 0,
                    0 + length (filter (\<lambda>(n, l). line_parses L l) (enumerate 1 file_lines))), Some r')"
    "start_time r' = start_time r"
    "\<forall>e \<in> set evs. \<exists>a b c. e = Progress_event a b c" by blast
  then show ?thesis using assms(2)
    by (simp add: stream_large_json_def filter_enumerate_length)
qed

text \<open>\<open>total_lines\<close> is the number of lines when the last line is not malformed.\<close>

lemma last_counted_all_lines:
  "\<not> line_malformed L l \<Longrightarrow>
   last_counted L (enumerate 1 (ls @ [l])) 0 = length (ls @ [l])"
  by (simp add: enumerate_snoc last_counted_append)

text \<open>
  Claim C7 at two files of three lines with one malformed line, \<open>json.loads\<close> taken
  to accept the line \<open>{}\<close> only. With the malformed line in the middle the complete
  event reports \<open>total_lines = 3\<close> and \<open>parsed_objects = 2\<close>. With the malformed
  line last it reports \<open>total_lines = 2\<close>: the \<open>continue\<close> of the exception handler
  skips \<open>line_count = line_num\<close>, so \<open>total_lines\<close> is the number of the last line
  that is not malformed.
\<close>

theorem json_stream_last_line_malformed:
  "stream_large_json (\<lambda>s. if s = ''{}'' then Inr () else Inl JSONDecodeError)
     [''{}'', ''{bad'', ''{}'']
     (Some \<lparr>status = ''processing'', progress = 50, message = Processing_file,
            start_time = Some 0\<rparr>) 5
   = ([Complete_event 3 2 5],
      Some \<lparr>status = ''processing'', progress = 50, message = Processing_file,
            start_time = Some 0\<rparr>)
   \<and> stream_large_json (\<lambda>s. if s = ''{}'' then Inr () else Inl JSONDecodeError)
     [''{}'', ''{}'', ''{bad'']
     (Some \<lparr>status = ''processing'', progress = 50, message = Processing_file,
            start_time = Some 0\<rparr>) 5
   = ([Complete_event 2 2 5],
      Some \<lparr>status = ''processing'', progress = 50, message = Processing_file,
            start_time = Some 0\<rparr>)"
  by (simp add: stream_large_json_def enumerate_eq_zip strip_def is_space_def)

end
